theory Spec2Isabelle
  imports Main "HOL-Library.Word"
begin

section \<open>Spherical polygons as nested loop sequences (s2/polygon.go)\<close>

text \<open>
  A shallow embedding of \<^verbatim>\<open>s2/polygon.go\<close>. Go's \<^verbatim>\<open>int\<close> is modelled by \<^typ>\<open>int\<close>:
  every integer below is a slice length, a sum of slice lengths or an index compared
  with one, so 64-bit wrap-around is out of reach. A run-time panic is a value of
  \<open>panic\<close>, returned as \<open>Inl\<close>. Loop pointers are taken to be non-nil.
\<close>

subsection \<open>Data model\<close>

datatype panic = IndexOutOfRange | DivideByZero | NotYetImplemented

text \<open>
  Modelled from the spec: the type \<^verbatim>\<open>Rect\<close> with its sentinels \<^verbatim>\<open>EmptyRect\<close> and
  \<^verbatim>\<open>FullRect\<close> is declared outside \<^verbatim>\<open>polygon.go\<close>. The spec describes a bounding region
  that bounds and contains points and has "full" and "empty" sentinel values, so a
  rectangle is the set of the points it contains.
\<close>

type_synonym 'pt Rect = "'pt set"

definition EmptyRect :: "'pt Rect" where
  "EmptyRect = {}"

definition FullRect :: "'pt Rect" where
  "FullRect = UNIV"

text \<open>
  The fields \<open>vertices\<close> and \<open>depth\<close> of a loop are read by \<^verbatim>\<open>polygon.go\<close> directly.
  The other three fields stand for what the loop's methods \<^verbatim>\<open>ContainsOrigin\<close>,
  \<^verbatim>\<open>IsFull\<close> and \<^verbatim>\<open>RectBound\<close> report.
\<close>

record 'pt loop =
  vertices :: "'pt list"
  depth :: int
  originInside :: bool
  fullLoop :: bool
  rectBound :: "'pt Rect"

text \<open>
  Modelled from the spec: the methods of \<^verbatim>\<open>Loop\<close> are declared outside \<^verbatim>\<open>polygon.go\<close>.
  The spec lists what a loop provides: its vertex count, cyclic vertex access by index
  (\<open>vertex (j mod length)\<close>), an "is full" query, its own origin-containment flag and
  its own bounding rectangle.
\<close>

definition Vertices :: "'pt loop \<Rightarrow> 'pt list" where
  "Vertices l = vertices l"

definition Vertex :: "'pt loop \<Rightarrow> int \<Rightarrow> panic + 'pt" where
  "Vertex l i =
     (let n = int (length (vertices l))
      in if n = 0 then Inl DivideByZero else Inr (vertices l ! nat (i mod n)))"

definition Loop_IsFull :: "'pt loop \<Rightarrow> bool" where
  "Loop_IsFull l = fullLoop l"

definition Loop_ContainsOrigin :: "'pt loop \<Rightarrow> bool" where
  "Loop_ContainsOrigin l = originInside l"

definition Loop_RectBound :: "'pt loop \<Rightarrow> 'pt Rect" where
  "Loop_RectBound l = rectBound l"

text \<open>
  The struct \<^verbatim>\<open>Polygon\<close>. The spatial index field is left out: no function below reads
  it. A nil slice is \<open>None\<close>, so that \<^verbatim>\<open>cumulativeEdges != nil\<close> and
  \<^verbatim>\<open>len(cumulativeEdges) > 0\<close> stay different tests.
\<close>

record 'pt polygon =
  loops :: "'pt loop list"
  hasHoles :: bool
  numVertices :: int
  numEdges :: int
  bound :: "'pt Rect"
  subregionBound :: "'pt Rect"
  cumulativeEdges :: "int list option"

text \<open>The zero value of \<^verbatim>\<open>Polygon\<close>; \<^verbatim>\<open>Rect{}\<close> is taken to be the empty region.\<close>

definition zeroPolygon :: "'pt polygon" where
  "zeroPolygon =
     \<lparr>loops = [], hasHoles = False, numVertices = 0, numEdges = 0,
      bound = EmptyRect, subregionBound = EmptyRect, cumulativeEdges = None\<rparr>"

text \<open>Indexing a slice: Go panics outside \<open>[0, len)\<close>.\<close>

definition index :: "'a list \<Rightarrow> int \<Rightarrow> panic + 'a" where
  "index xs k =
     (if 0 \<le> k \<and> k < int (length xs) then Inr (xs ! nat k) else Inl IndexOutOfRange)"

text \<open>The elements of a slice that may be nil: \<^verbatim>\<open>len\<close> of a nil slice is 0.\<close>

definition elems :: "'a list option \<Rightarrow> 'a list" where
  "elems s = (case s of None \<Rightarrow> [] | Some xs \<Rightarrow> xs)"

subsection \<open>Construction\<close>

definition maxLinearSearchLoops :: nat where
  "maxLinearSearchLoops = 12"

text \<open>The \<^verbatim>\<open>for _, l := range loops\<close> loop of \<^verbatim>\<open>PolygonFromLoops\<close>.\<close>

primrec PolygonFromLoops_range :: "'pt loop list \<Rightarrow> 'pt polygon \<Rightarrow> 'pt polygon" where
  "PolygonFromLoops_range [] p = p"
| "PolygonFromLoops_range (l # ls) p =
     PolygonFromLoops_range ls
       (let p1 = (case cumulativeEdges p of
                    None \<Rightarrow> p
                  | Some c \<Rightarrow> p\<lparr>cumulativeEdges := Some (c @ [numEdges p])\<rparr>)
        in p1\<lparr>numEdges := numEdges p1 + int (length (Vertices l))\<rparr>)"

text \<open>
  \<^verbatim>\<open>PolygonFromLoops\<close>: the guard on more than one loop, then the struct literal,
  which reads \<^verbatim>\<open>loops[0]\<close> whatever the length is, then the table and the edge count.
\<close>

definition PolygonFromLoops :: "'pt loop list \<Rightarrow> panic + 'pt polygon" where
  "PolygonFromLoops ls =
     (if length ls > 1 then Inl NotYetImplemented
      else case index ls 0 of
        Inl x \<Rightarrow> Inl x
      | Inr l0 \<Rightarrow>
          let p = \<lparr>loops = ls, hasHoles = False,
                   numVertices = int (length (Vertices l0)), numEdges = 0,
                   bound = Loop_RectBound l0, subregionBound = EmptyRect,
                   cumulativeEdges = None\<rparr>;
              p = (if length ls > maxLinearSearchLoops
                   then p\<lparr>cumulativeEdges := Some []\<rparr> else p)
          in Inr (PolygonFromLoops_range ls p))"

text \<open>
  \<^verbatim>\<open>FullPolygon\<close>. The constructor \<^verbatim>\<open>FullLoop\<close> is declared outside \<^verbatim>\<open>polygon.go\<close>;
  the loop it returns is the parameter \<open>fl\<close>.
\<close>

definition FullPolygon :: "'pt loop \<Rightarrow> 'pt polygon" where
  "FullPolygon fl =
     \<lparr>loops = [fl], hasHoles = False, numVertices = int (length (Vertices fl)),
      numEdges = 0, bound = FullRect, subregionBound = FullRect,
      cumulativeEdges = None\<rparr>"

subsection \<open>The loop sequence\<close>

definition IsEmpty :: "'pt polygon \<Rightarrow> bool" where
  "IsEmpty p = (length (loops p) = 0)"

definition IsFull :: "'pt polygon \<Rightarrow> bool" where
  "IsFull p =
     (length (loops p) = 1 \<and>
      (case index (loops p) 0 of Inl x \<Rightarrow> False | Inr l \<Rightarrow> Loop_IsFull l))"

definition NumLoops :: "'pt polygon \<Rightarrow> int" where
  "NumLoops p = int (length (loops p))"

definition Loop :: "'pt polygon \<Rightarrow> int \<Rightarrow> panic + 'pt loop" where
  "Loop p k = index (loops p) k"

definition ContainsOrigin :: "'pt polygon \<Rightarrow> bool" where
  "ContainsOrigin p = foldl (\<lambda>containsOrigin l. containsOrigin \<noteq> Loop_ContainsOrigin l) False (loops p)"

definition NumChains :: "'pt polygon \<Rightarrow> int" where
  "NumChains p = (if IsFull p then 0 else NumLoops p)"

subsection \<open>The nesting hierarchy\<close>

text \<open>
  The \<^verbatim>\<open>for\<close> loop of \<^verbatim>\<open>Parent\<close>, entered after \<^verbatim>\<open>k--\<close>: it steps back while
  \<^verbatim>\<open>k >= 0 && p.loops[k].depth <= depth\<close>.
\<close>

function Parent_for :: "'pt loop list \<Rightarrow> int \<Rightarrow> int \<Rightarrow> panic + int" where
  "Parent_for ls d k =
     (if k \<ge> 0 then
        (case index ls k of
           Inl x \<Rightarrow> Inl x
         | Inr l \<Rightarrow> if depth l \<le> d then Parent_for ls d (k - 1) else Inr k)
      else Inr k)"
  by pat_completeness auto
termination
  by (relation "measure (\<lambda>(ls, d, k). nat (k + 1))") auto

declare Parent_for.simps [simp del]

definition Parent :: "'pt polygon \<Rightarrow> int \<Rightarrow> panic + (int \<times> bool)" where
  "Parent p k =
     (case index (loops p) k of
        Inl x \<Rightarrow> Inl x
      | Inr l \<Rightarrow>
          if depth l = 0 then Inr (- 1, False)
          else (case Parent_for (loops p) (depth l) (k - 1) of
                  Inl x \<Rightarrow> Inl x
                | Inr k' \<Rightarrow> Inr (k', True)))"

text \<open>
  The \<^verbatim>\<open>for\<close> loop of \<^verbatim>\<open>LastDescendant\<close>, entered after \<^verbatim>\<open>k++\<close>: it steps forward
  while \<^verbatim>\<open>k < len(p.loops) && p.loops[k].depth > depth\<close>.
\<close>

function LastDescendant_for :: "'pt loop list \<Rightarrow> int \<Rightarrow> int \<Rightarrow> panic + int" where
  "LastDescendant_for ls d k =
     (if k < int (length ls) then
        (case index ls k of
           Inl x \<Rightarrow> Inl x
         | Inr l \<Rightarrow> if depth l > d then LastDescendant_for ls d (k + 1) else Inr k)
      else Inr k)"
  by pat_completeness auto
termination
  by (relation "measure (\<lambda>(ls, d, k). nat (int (length ls) - k))") auto

declare LastDescendant_for.simps [simp del]

definition LastDescendant :: "'pt polygon \<Rightarrow> int \<Rightarrow> panic + int" where
  "LastDescendant p k =
     (if k < 0 then Inr (int (length (loops p)) - 1)
      else case index (loops p) k of
        Inl x \<Rightarrow> Inl x
      | Inr l \<Rightarrow>
          (case LastDescendant_for (loops p) (depth l) (k + 1) of
             Inl x \<Rightarrow> Inl x
           | Inr k' \<Rightarrow> Inr (k' - 1)))"

subsection \<open>Edges and chains\<close>

definition NumEdges :: "'pt polygon \<Rightarrow> int" where
  "NumEdges p = numEdges p"

text \<open>
  \<^verbatim>\<open>Edge\<close>, indexed mode: \<^verbatim>\<open>for i = range p.cumulativeEdges\<close>, leaving at the first
  \<open>i\<close> with \<^verbatim>\<open>i+1 >= len(p.cumulativeEdges) || e < p.cumulativeEdges[i+1]\<close>. The test
  holds at the last index at the latest, so the range is never used up. The function
  starts at index 0 of a table that is not empty.
\<close>

function Edge_range :: "int list \<Rightarrow> int \<Rightarrow> nat \<Rightarrow> int \<times> int" where
  "Edge_range c e i =
     (if i + 1 \<ge> length c \<or> e < c ! (i + 1) then (int i, e - c ! i)
      else Edge_range c e (i + 1))"
  by pat_completeness auto
termination
  by (relation "measure (\<lambda>(c, e, i). length c - i)") auto

declare Edge_range.simps [simp del]

text \<open>
  \<^verbatim>\<open>Edge\<close>, linear mode: \<^verbatim>\<open>for i = 0; e >= len(p.Loop(i).vertices); i++\<close>. Reading
  \<^verbatim>\<open>p.Loop(i)\<close> past the last loop panics.
\<close>

function Edge_for :: "'pt loop list \<Rightarrow> int \<Rightarrow> int \<Rightarrow> panic + (int \<times> int)" where
  "Edge_for ls e i =
     (case index ls i of
        Inl x \<Rightarrow> Inl x
      | Inr l \<Rightarrow>
          if e \<ge> int (length (vertices l))
          then Edge_for ls (e - int (length (vertices l))) (i + 1)
          else Inr (i, e))"
  by pat_completeness auto
termination
  by (relation "measure (\<lambda>(ls, e, i). nat (int (length ls) - i))")
     (auto simp: index_def split: if_splits)

declare Edge_for.simps [simp del]

definition Edge :: "'pt polygon \<Rightarrow> int \<Rightarrow> panic + ('pt \<times> 'pt)" where
  "Edge p e =
     (case (if length (elems (cumulativeEdges p)) > 0
            then Inr (Edge_range (elems (cumulativeEdges p)) e 0)
            else Edge_for (loops p) e 0) of
        Inl x \<Rightarrow> Inl x
      | Inr (i, e') \<Rightarrow>
          (case Loop p i of
             Inl x \<Rightarrow> Inl x
           | Inr l \<Rightarrow>
               (case Vertex l e' of
                  Inl x \<Rightarrow> Inl x
                | Inr a \<Rightarrow>
                    (case Loop p i of
                       Inl x \<Rightarrow> Inl x
                     | Inr l' \<Rightarrow>
                         (case Vertex l' (e' + 1) of
                            Inl x \<Rightarrow> Inl x
                          | Inr b \<Rightarrow> Inr (a, b))))))"

definition ChainEdge :: "'pt polygon \<Rightarrow> int \<Rightarrow> int \<Rightarrow> panic + ('pt \<times> 'pt)" where
  "ChainEdge p i j =
     (case Loop p i of
        Inl x \<Rightarrow> Inl x
      | Inr l \<Rightarrow>
          (case Vertex l j of
             Inl x \<Rightarrow> Inl x
           | Inr a \<Rightarrow>
               (case Loop p i of
                  Inl x \<Rightarrow> Inl x
                | Inr l' \<Rightarrow>
                    (case Vertex l' (j + 1) of
                       Inl x \<Rightarrow> Inl x
                     | Inr b \<Rightarrow> Inr (a, b)))))"

text \<open>\<^verbatim>\<open>ChainPosition\<close> has its own copy of the two loops of \<^verbatim>\<open>Edge\<close>.\<close>

function ChainPosition_range :: "int list \<Rightarrow> int \<Rightarrow> nat \<Rightarrow> int \<times> int" where
  "ChainPosition_range c edgeID i =
     (if i + 1 \<ge> length c \<or> edgeID < c ! (i + 1) then (int i, edgeID - c ! i)
      else ChainPosition_range c edgeID (i + 1))"
  by pat_completeness auto
termination
  by (relation "measure (\<lambda>(c, e, i). length c - i)") auto

declare ChainPosition_range.simps [simp del]

function ChainPosition_for :: "'pt loop list \<Rightarrow> int \<Rightarrow> int \<Rightarrow> panic + (int \<times> int)" where
  "ChainPosition_for ls edgeID i =
     (case index ls i of
        Inl x \<Rightarrow> Inl x
      | Inr l \<Rightarrow>
          if edgeID \<ge> int (length (vertices l))
          then ChainPosition_for ls (edgeID - int (length (vertices l))) (i + 1)
          else Inr (i, edgeID))"
  by pat_completeness auto
termination
  by (relation "measure (\<lambda>(ls, e, i). nat (int (length ls) - i))")
     (auto simp: index_def split: if_splits)

declare ChainPosition_for.simps [simp del]

definition ChainPosition :: "'pt polygon \<Rightarrow> int \<Rightarrow> panic + (int \<times> int)" where
  "ChainPosition p edgeID =
     (if length (elems (cumulativeEdges p)) > 0
      then Inr (ChainPosition_range (elems (cumulativeEdges p)) edgeID 0)
      else ChainPosition_for (loops p) edgeID 0)"

text \<open>
  The two resolution modes in the spec's words. The table holds, at \<open>i\<close>, the sum of
  the edge counts of the loops before \<open>i\<close>; indexed mode takes the greatest \<open>i\<close> whose
  entry is at most \<open>e\<close>, and \<open>e\<close> minus that entry.
\<close>

definition edgeCount :: "'pt loop list \<Rightarrow> int" where
  "edgeCount ls = sum_list (map (\<lambda>l. int (length (vertices l))) ls)"

definition spec_cumulativeEdges :: "'pt loop list \<Rightarrow> int list" where
  "spec_cumulativeEdges ls = map (\<lambda>i. edgeCount (take i ls)) [0..<length ls]"

definition spec_indexed :: "int list \<Rightarrow> int \<Rightarrow> (int \<times> int) option" where
  "spec_indexed c e =
     (case filter (\<lambda>i. c ! i \<le> e) (rev [0..<length c]) of
        [] \<Rightarrow> None
      | i # _ \<Rightarrow> Some (int i, e - c ! i))"

text \<open>
  The edge count and the table as the range loop of \<^verbatim>\<open>PolygonFromLoops\<close> computes them
  over the loops of a polygon: with the table allocated, as the constructor does for
  more than \<open>maxLinearSearchLoops\<close> loops, and with the table left nil.
\<close>

definition tableBuilt :: "'pt polygon \<Rightarrow> 'pt polygon" where
  "tableBuilt p =
     PolygonFromLoops_range (loops p) (p\<lparr>numEdges := 0, cumulativeEdges := Some []\<rparr>)"

definition tableNil :: "'pt polygon \<Rightarrow> 'pt polygon" where
  "tableNil p =
     PolygonFromLoops_range (loops p) (p\<lparr>numEdges := 0, cumulativeEdges := None\<rparr>)"

text \<open>
  What the constructors establish about the edge bookkeeping: the edge count does not
  exceed the number of edges the loops have (\<^verbatim>\<open>FullPolygon\<close> leaves it 0), and the
  table is nil, empty or the prefix sums of the loops' edge counts.
\<close>

definition polygon_inv :: "'pt polygon \<Rightarrow> bool" where
  "polygon_inv p =
     (numEdges p \<le> edgeCount (loops p) \<and>
      (elems (cumulativeEdges p) = [] \<or>
       elems (cumulativeEdges p) = spec_cumulativeEdges (loops p)))"

subsection \<open>Encoding\<close>

text \<open>
  Modelled from the spec: the encoder, its write operations, the constant
  \<^verbatim>\<open>encodingVersion\<close> and the encoders of \<^verbatim>\<open>Loop\<close> and \<^verbatim>\<open>Rect\<close> are declared outside
  \<^verbatim>\<open>polygon.go\<close>. The spec gives the stream as a sequence of fields, each of its own
  natural width with nothing between them, and says that nothing is written after a
  failure. The stream is the list of the fields written, a loop and a rectangle being
  one block each; the writer is an in-memory buffer, which takes every write. The spec
  fixes the version tag only as a constant; no statement below depends on its value.
\<close>

datatype 'pt item =
  ItemInt8 "8 word"
| ItemBool bool
| ItemUint32 "32 word"
| ItemLoop "'pt loop"
| ItemRect "'pt Rect"

record 'pt encoder =
  enc_w :: "'pt item list"
  enc_err :: "string option"

definition encodingVersion :: "8 word" where
  "encodingVersion = 1"

definition write_item :: "'pt item \<Rightarrow> 'pt encoder \<Rightarrow> 'pt encoder" where
  "write_item x e = (if enc_err e \<noteq> None then e else e\<lparr>enc_w := enc_w e @ [x]\<rparr>)"

definition writeInt8 :: "8 word \<Rightarrow> 'pt encoder \<Rightarrow> 'pt encoder" where
  "writeInt8 x e = write_item (ItemInt8 x) e"

definition writeBool :: "bool \<Rightarrow> 'pt encoder \<Rightarrow> 'pt encoder" where
  "writeBool x e = write_item (ItemBool x) e"

definition writeUint32 :: "32 word \<Rightarrow> 'pt encoder \<Rightarrow> 'pt encoder" where
  "writeUint32 x e = write_item (ItemUint32 x) e"

definition Loop_encode :: "'pt loop \<Rightarrow> 'pt encoder \<Rightarrow> 'pt encoder" where
  "Loop_encode l e = write_item (ItemLoop l) e"

definition Rect_encode :: "'pt Rect \<Rightarrow> 'pt encoder \<Rightarrow> 'pt encoder" where
  "Rect_encode r e = write_item (ItemRect r) e"

text \<open>\<^verbatim>\<open>uint32(len(p.loops))\<close> keeps the low 32 bits of the length.\<close>

definition encodeLossless :: "'pt polygon \<Rightarrow> 'pt encoder \<Rightarrow> 'pt encoder" where
  "encodeLossless p e =
     (let e = writeInt8 encodingVersion e;
          e = writeBool True e;
          e = writeBool (hasHoles p) e;
          e = writeUint32 (of_nat (length (loops p))) e;
          e = foldl (\<lambda>e l. Loop_encode l e) e (loops p)
      in Rect_encode (bound p) e)"

definition encode :: "'pt polygon \<Rightarrow> 'pt encoder \<Rightarrow> 'pt encoder" where
  "encode p e =
     (if numVertices p = 0
      then e\<lparr>enc_err := Some ''compressed encoding not yet implemented''\<rparr>
      else encodeLossless p e)"

text \<open>
  \<^verbatim>\<open>Encode\<close> starts a fresh encoder on the writer and returns its error; the result
  here carries the writer's contents as well.
\<close>

definition Encode :: "'pt polygon \<Rightarrow> 'pt item list \<Rightarrow> string option \<times> 'pt item list" where
  "Encode p w =
     (let e = encode p \<lparr>enc_w = w, enc_err = None\<rparr> in (enc_err e, enc_w e))"

subsection \<open>Example loops and polygons\<close>

text \<open>
  A triangle, a hole inside it, and a loop flagged as the full loop, over points named
  by natural numbers; \<open>triPolygon\<close> is what \<open>PolygonFromLoops\<close> builds from the
  triangle alone, and \<open>nested\<close> is a shell with one hole followed by a second
  shell.
\<close>

definition tri :: "nat loop" where
  "tri = \<lparr>vertices = [0, 1, 2], depth = 0, originInside = False, fullLoop = False,
           rectBound = {0, 1, 2}\<rparr>"

definition hole :: "nat loop" where
  "hole = \<lparr>vertices = [3, 4, 5, 6], depth = 1, originInside = False, fullLoop = False,
            rectBound = {3, 4, 5, 6}\<rparr>"

definition fl0 :: "nat loop" where
  "fl0 = \<lparr>vertices = [7], depth = 0, originInside = True, fullLoop = True,
           rectBound = FullRect\<rparr>"

definition triPolygon :: "nat polygon" where
  "triPolygon =
     \<lparr>loops = [tri], hasHoles = False, numVertices = 3, numEdges = 3,
      bound = {0, 1, 2}, subregionBound = EmptyRect, cumulativeEdges = None\<rparr>"

definition shell2 :: "nat loop" where
  "shell2 = \<lparr>vertices = [8, 9, 10], depth = 0, originInside = False, fullLoop = False,
              rectBound = {8, 9, 10}\<rparr>"

definition nested :: "nat polygon" where
  "nested =
     \<lparr>loops = [tri, hole, shell2], hasHoles = True, numVertices = 10, numEdges = 10,
      bound = {0, 1, 2, 8, 9, 10}, subregionBound = {0, 1, 2, 8, 9, 10},
      cumulativeEdges = None\<rparr>"

definition nestedIndexed :: "nat polygon" where
  "nestedIndexed = nested\<lparr>cumulativeEdges := Some [0, 3, 7]\<rparr>"

section \<open>Properties\<close>

subsection \<open>Construction and the sentinels\<close>

lemma loops_PolygonFromLoops_range [simp]:
  "loops (PolygonFromLoops_range ls p) = loops p"
  by (induction ls arbitrary: p) (simp_all add: Let_def split: option.splits)

lemma PolygonFromLoops_loops:
  "PolygonFromLoops ls = Inr p \<Longrightarrow> loops p = ls"
  by (auto simp: PolygonFromLoops_def index_def Let_def
      simp del: PolygonFromLoops_range.simps split: if_splits)

lemma PolygonFromLoops_length:
  "PolygonFromLoops ls = Inr p \<Longrightarrow> length ls = 1"
  by (cases ls) (auto simp: PolygonFromLoops_def index_def split: if_splits)

lemma PolygonFromLoops_tri: "PolygonFromLoops [tri] = Inr triPolygon"
  by (simp add: PolygonFromLoops_def index_def Let_def maxLinearSearchLoops_def
      triPolygon_def tri_def Vertices_def Loop_RectBound_def)

text \<open>
  C10: on the empty slice \<open>PolygonFromLoops\<close> reads element 0 and panics with an index
  out of range; whatever it returns is not the empty polygon, which is the zero value
  of the struct.
\<close>

theorem PolygonFromLoops_empty_slice:
  "PolygonFromLoops ([] :: 'pt loop list) = Inl IndexOutOfRange
   \<and> (\<forall>ls p. PolygonFromLoops (ls :: 'pt loop list) = Inr p \<longrightarrow> \<not> IsEmpty p)
   \<and> IsEmpty (zeroPolygon :: 'pt polygon)"
proof -
  have "PolygonFromLoops ([] :: 'pt loop list) = Inl IndexOutOfRange"
    by (simp add: PolygonFromLoops_def index_def)
  moreover have "\<not> IsEmpty p" if "PolygonFromLoops ls = Inr p" for ls and p :: "'pt polygon"
    using PolygonFromLoops_loops [OF that] PolygonFromLoops_length [OF that]
    by (auto simp: IsEmpty_def)
  moreover have "IsEmpty (zeroPolygon :: 'pt polygon)"
    by (simp add: IsEmpty_def zeroPolygon_def)
  ultimately show ?thesis by blast
qed

theorem PolygonFromLoops_empty_slice_witness:
  "PolygonFromLoops ([] :: nat loop list) = Inl IndexOutOfRange
   \<and> PolygonFromLoops [tri] = Inr triPolygon \<and> \<not> IsEmpty triPolygon"
  using PolygonFromLoops_empty_slice [where 'pt = nat] PolygonFromLoops_tri
  by blast

text \<open>
  C9: \<open>NumChains\<close> is 0 for a full polygon and for an empty one, and is the loop count
  for every polygon that is not full. The polygon \<open>FullPolygon\<close> builds around a loop
  that reports itself full has one loop and is full; the zero value has no loop and is
  empty.
\<close>

theorem NumChains_sentinels:
  "(IsFull p \<longrightarrow> NumChains p = 0)
   \<and> (IsEmpty p \<longrightarrow> NumChains p = 0)
   \<and> (\<not> IsFull p \<longrightarrow> NumChains p = NumLoops p)
   \<and> (Loop_IsFull fl \<longrightarrow>
        NumLoops (FullPolygon fl) = 1 \<and> IsFull (FullPolygon fl)
        \<and> NumChains (FullPolygon fl) = 0)
   \<and> NumLoops (zeroPolygon :: 'pt polygon) = 0 \<and> IsEmpty (zeroPolygon :: 'pt polygon)
   \<and> NumChains (zeroPolygon :: 'pt polygon) = 0"
  by (simp add: NumChains_def IsFull_def IsEmpty_def NumLoops_def FullPolygon_def
      zeroPolygon_def index_def)

theorem NumChains_sentinels_witness:
  "Loop_IsFull fl0 \<and> IsFull (FullPolygon fl0) \<and> NumChains (FullPolygon fl0) = 0
   \<and> NumLoops (FullPolygon fl0) = 1
   \<and> IsEmpty (zeroPolygon :: nat polygon) \<and> NumChains (zeroPolygon :: nat polygon) = 0
   \<and> \<not> IsFull triPolygon \<and> NumChains triPolygon = 1"
proof -
  have f: "Loop_IsFull fl0"
    by (simp add: fl0_def Loop_IsFull_def)
  have e: "IsEmpty (zeroPolygon :: nat polygon)"
    by (simp add: IsEmpty_def zeroPolygon_def)
  have t: "\<not> IsFull triPolygon" "NumLoops triPolygon = 1"
    by (simp_all add: IsFull_def NumLoops_def triPolygon_def index_def Loop_IsFull_def tri_def)
  from NumChains_sentinels [of "zeroPolygon :: nat polygon" fl0]
    NumChains_sentinels [of triPolygon fl0] f e t show ?thesis
    by auto
qed

lemma PolygonFromLoops_subregionBound:
  "PolygonFromLoops ls = Inr p \<Longrightarrow> subregionBound p = EmptyRect"
proof -
  have "subregionBound (PolygonFromLoops_range ks q) = subregionBound q" for ks and q :: "'a polygon"
    by (induction ks arbitrary: q) (simp_all add: Let_def split: option.splits)
  then show "PolygonFromLoops ls = Inr p \<Longrightarrow> subregionBound p = EmptyRect"
    by (auto simp: PolygonFromLoops_def index_def Let_def
        simp del: PolygonFromLoops_range.simps split: if_splits)
qed

text \<open>
  C5: the polygon \<open>PolygonFromLoops\<close> builds from the triangle has the triangle's
  rectangle as its bound and the empty rectangle as its subregion bound, so the points
  of the bound do not lie in the subregion bound. By \<open>PolygonFromLoops_subregionBound\<close>
  the subregion bound is the empty rectangle for every loop given.
\<close>

theorem subregionBound_tri:
  "PolygonFromLoops [tri] = Inr triPolygon
   \<and> bound triPolygon = {0, 1, 2} \<and> subregionBound triPolygon = {}
   \<and> \<not> bound triPolygon \<subseteq> subregionBound triPolygon"
  by (simp add: PolygonFromLoops_tri) (simp add: triPolygon_def EmptyRect_def)

subsection \<open>The nesting hierarchy\<close>

lemma Parent_for_neg: "k < 0 \<Longrightarrow> Parent_for ls d k = Inr k"
  by (subst Parent_for.simps) simp

lemma Parent_for_step:
  "0 \<le> k \<Longrightarrow> k < int (length ls) \<Longrightarrow>
   Parent_for ls d k = (if depth (ls ! nat k) \<le> d then Parent_for ls d (k - 1) else Inr k)"
  by (subst Parent_for.simps) (simp add: index_def)

lemma Parent_for_deeper:
  "k < int (length ls) \<Longrightarrow> Parent_for ls d k = Inr r \<Longrightarrow>
   r < 0 \<or> (0 \<le> r \<and> r \<le> k \<and> depth (ls ! nat r) > d)"
proof (induction "nat (k + 1)" arbitrary: k)
  case 0
  then show ?case by (simp add: Parent_for_neg)
next
  case (Suc n)
  then have k: "0 \<le> k" "k < int (length ls)" by auto
  show ?case
  proof (cases "depth (ls ! nat k) \<le> d")
    case True
    with Suc.prems k have "Parent_for ls d (k - 1) = Inr r"
      by (simp add: Parent_for_step)
    moreover from Suc.hyps(2) k have "n = nat (k - 1 + 1)" by simp
    moreover from k have "k - 1 < int (length ls)" by simp
    ultimately have "r < 0 \<or> (0 \<le> r \<and> r \<le> k - 1 \<and> depth (ls ! nat r) > d)"
      by (intro Suc.hyps(1))
    then show ?thesis by auto
  next
    case False
    with Suc.prems k show ?thesis by (simp add: Parent_for_step)
  qed
qed

lemma Parent_deeper:
  assumes "0 \<le> k" "k < NumLoops p" "Parent p k = Inr (r, ok)" "ok"
  shows "r < 0 \<or> (r < k \<and> depth (loops p ! nat r) > depth (loops p ! nat k))"
proof -
  from assms(1,2) have ix: "index (loops p) k = Inr (loops p ! nat k)"
    by (simp add: index_def NumLoops_def)
  with assms(3,4) have "Parent_for (loops p) (depth (loops p ! nat k)) (k - 1) = Inr r"
    by (auto simp: Parent_def split: if_splits sum.splits)
  moreover from assms(2) have "k - 1 < int (length (loops p))"
    by (simp add: NumLoops_def)
  ultimately show ?thesis
    using Parent_for_deeper [of "k - 1" "loops p" "depth (loops p ! nat k)" r] by auto
qed

text \<open>
  C2: in \<open>nested\<close> the hole at index 1 has depth 1 and the shell at index 0 has depth 0,
  so the parent of loop 1 is loop 0; \<open>Parent\<close> returns index \<open>-1\<close> with \<open>ok\<close> true. The
  loop of \<open>Parent\<close> steps back over every loop whose depth is at most the depth of
  loop \<open>k\<close>, the parent among them: by \<open>Parent_deeper\<close> an index it returns with \<open>ok\<close>
  true is negative or that of a loop strictly deeper than loop \<open>k\<close>.
\<close>

theorem Parent_nested_hole:
  "depth (loops nested ! 1) = 1 \<and> depth (loops nested ! 0) = 0
   \<and> Parent nested 1 = Inr (- 1, True)"
  by (simp add: Parent_def Parent_for_step Parent_for_neg index_def nested_def tri_def hole_def)

lemma LastDescendant_for_end:
  "k \<ge> int (length ls) \<Longrightarrow> LastDescendant_for ls d k = Inr k"
  by (subst LastDescendant_for.simps) simp

lemma LastDescendant_for_step:
  "0 \<le> k \<Longrightarrow> k < int (length ls) \<Longrightarrow>
   LastDescendant_for ls d k =
     (if depth (ls ! nat k) > d then LastDescendant_for ls d (k + 1) else Inr k)"
  by (subst LastDescendant_for.simps) (simp add: index_def)

lemma LastDescendant_for_scan:
  "0 \<le> k \<Longrightarrow> k \<le> int (length ls) \<Longrightarrow>
   \<exists>m. LastDescendant_for ls d k = Inr m \<and> k \<le> m \<and> m \<le> int (length ls)
     \<and> (\<forall>j. k \<le> j \<and> j < m \<longrightarrow> depth (ls ! nat j) > d)
     \<and> (m < int (length ls) \<longrightarrow> depth (ls ! nat m) \<le> d)"
proof (induction "nat (int (length ls) - k)" arbitrary: k)
  case 0
  then have "LastDescendant_for ls d k = Inr k" "k = int (length ls)"
    by (simp_all add: LastDescendant_for_end)
  then show ?case by auto
next
  case (Suc n)
  then have k: "0 \<le> k" "k < int (length ls)" by auto
  show ?case
  proof (cases "depth (ls ! nat k) > d")
    case False
    with k have "LastDescendant_for ls d k = Inr k"
      by (simp add: LastDescendant_for_step)
    with False k show ?thesis by auto
  next
    case True
    with k have eq: "LastDescendant_for ls d k = LastDescendant_for ls d (k + 1)"
      by (simp add: LastDescendant_for_step)
    from Suc.hyps(2) k have n: "n = nat (int (length ls) - (k + 1))" by simp
    from Suc.hyps(1) [OF n] k obtain m where
      m: "LastDescendant_for ls d (k + 1) = Inr m" "k + 1 \<le> m" "m \<le> int (length ls)"
        "\<forall>j. k + 1 \<le> j \<and> j < m \<longrightarrow> depth (ls ! nat j) > d"
        "m < int (length ls) \<longrightarrow> depth (ls ! nat m) \<le> d"
      by auto
    have "depth (ls ! nat j) > d" if "k \<le> j" "j < m" for j
    proof (cases "j = k")
      case True
      with \<open>depth (ls ! nat k) > d\<close> show ?thesis by simp
    next
      case False
      with that m(4) show ?thesis by auto
    qed
    with m eq show ?thesis by auto
  qed
qed

text \<open>
  C4: for a negative \<open>k\<close>, \<open>LastDescendant\<close> returns the index of the last loop. For a
  valid index \<open>k\<close> it returns \<open>m - 1\<close>, where \<open>m\<close> is the first index after \<open>k\<close> whose loop
  is not deeper than loop \<open>k\<close>, or the loop count when there is none: every loop strictly
  between \<open>k\<close> and \<open>m\<close> is deeper than loop \<open>k\<close>. For a leaf, a loop that is the last one or
  is followed by a loop that is not deeper, it returns \<open>k\<close>.
\<close>

theorem LastDescendant_block:
  "(k < 0 \<longrightarrow> LastDescendant p k = Inr (NumLoops p - 1))
   \<and> (0 \<le> k \<and> k < NumLoops p \<longrightarrow>
        (\<exists>m. LastDescendant p k = Inr (m - 1) \<and> k < m \<and> m \<le> NumLoops p
           \<and> (\<forall>j. k < j \<and> j < m \<longrightarrow> depth (loops p ! nat j) > depth (loops p ! nat k))
           \<and> (m < NumLoops p \<longrightarrow> depth (loops p ! nat m) \<le> depth (loops p ! nat k))))
   \<and> (0 \<le> k \<and> k < NumLoops p
        \<and> (k + 1 = NumLoops p \<or> depth (loops p ! nat (k + 1)) \<le> depth (loops p ! nat k))
        \<longrightarrow> LastDescendant p k = Inr k)"
proof (intro conjI impI)
  assume "k < 0"
  then show "LastDescendant p k = Inr (NumLoops p - 1)"
    by (simp add: LastDescendant_def NumLoops_def)
next
  assume k: "0 \<le> k \<and> k < NumLoops p"
  then have ix: "index (loops p) k = Inr (loops p ! nat k)"
    by (simp add: index_def NumLoops_def)
  from k have "0 \<le> k + 1" "k + 1 \<le> int (length (loops p))"
    by (simp_all add: NumLoops_def)
  from LastDescendant_for_scan [OF this, of "depth (loops p ! nat k)"] obtain m where
    m: "LastDescendant_for (loops p) (depth (loops p ! nat k)) (k + 1) = Inr m"
      "k + 1 \<le> m" "m \<le> int (length (loops p))"
      "\<forall>j. k + 1 \<le> j \<and> j < m \<longrightarrow> depth (loops p ! nat j) > depth (loops p ! nat k)"
      "m < int (length (loops p)) \<longrightarrow> depth (loops p ! nat m) \<le> depth (loops p ! nat k)"
    by blast
  from k ix m(1) have "LastDescendant p k = Inr (m - 1)"
    by (simp add: LastDescendant_def)
  with m show "\<exists>m. LastDescendant p k = Inr (m - 1) \<and> k < m \<and> m \<le> NumLoops p
      \<and> (\<forall>j. k < j \<and> j < m \<longrightarrow> depth (loops p ! nat j) > depth (loops p ! nat k))
      \<and> (m < NumLoops p \<longrightarrow> depth (loops p ! nat m) \<le> depth (loops p ! nat k))"
    by (intro exI [of _ m]) (auto simp: NumLoops_def)
next
  assume k: "0 \<le> k \<and> k < NumLoops p
    \<and> (k + 1 = NumLoops p \<or> depth (loops p ! nat (k + 1)) \<le> depth (loops p ! nat k))"
  then have ix: "index (loops p) k = Inr (loops p ! nat k)"
    by (simp add: index_def NumLoops_def)
  have "LastDescendant_for (loops p) (depth (loops p ! nat k)) (k + 1) = Inr (k + 1)"
  proof (cases "k + 1 < int (length (loops p))")
    case True
    with k show ?thesis
      by (simp add: NumLoops_def LastDescendant_for_step)
  next
    case False
    then show ?thesis
      by (simp add: LastDescendant_for_end)
  qed
  with k ix show "LastDescendant p k = Inr k"
    by (simp add: LastDescendant_def)
qed

theorem LastDescendant_block_witness:
  "NumLoops nested = 3
   \<and> LastDescendant nested (- 1) = Inr 2
   \<and> LastDescendant nested 0 = Inr 1
   \<and> LastDescendant nested 1 = Inr 1
   \<and> LastDescendant nested 2 = Inr 2"
proof -
  have n: "NumLoops nested = 3"
    by (simp add: NumLoops_def nested_def)
  have d: "depth (loops nested ! nat 0) = 0" "depth (loops nested ! nat 1) = 1"
    "depth (loops nested ! nat 2) = 0"
    by (simp_all add: nested_def tri_def hole_def shell2_def)
  have "LastDescendant nested 0 = Inr 1"
    by (simp add: LastDescendant_def LastDescendant_for_step index_def nested_def
        tri_def hole_def shell2_def)
  with LastDescendant_block [of "- 1" nested] LastDescendant_block [of 1 nested]
    LastDescendant_block [of 2 nested] n d show ?thesis
    by simp
qed

subsection \<open>Edges and chains\<close>

lemma edgeCount_take_Suc:
  "i < length ls \<Longrightarrow>
   edgeCount (take (Suc i) ls) = edgeCount (take i ls) + int (length (vertices (ls ! i)))"
  by (simp add: edgeCount_def take_Suc_conv_app_nth)

lemma edgeCount_take_step: "edgeCount (take i ls) \<le> edgeCount (take (Suc i) ls)"
proof (cases "i < length ls")
  case True
  then show ?thesis by (simp add: edgeCount_take_Suc)
next
  case False
  then show ?thesis by simp
qed

lemma edgeCount_take_mono:
  "i \<le> j \<Longrightarrow> edgeCount (take i ls) \<le> edgeCount (take j ls)"
proof (induction j)
  case 0
  then show ?case by simp
next
  case (Suc j)
  show ?case
  proof (cases "i = Suc j")
    case True
    then show ?thesis by simp
  next
    case False
    with Suc have "edgeCount (take i ls) \<le> edgeCount (take j ls)" by simp
    also have "\<dots> \<le> edgeCount (take (Suc j) ls)" by (rule edgeCount_take_step)
    finally show ?thesis .
  qed
qed

lemma length_spec_cumulativeEdges [simp]:
  "length (spec_cumulativeEdges ls) = length ls"
  by (simp add: spec_cumulativeEdges_def)

lemma nth_spec_cumulativeEdges [simp]:
  "i < length ls \<Longrightarrow> spec_cumulativeEdges ls ! i = edgeCount (take i ls)"
  by (simp add: spec_cumulativeEdges_def)

lemma chain_unique:
  assumes "edgeCount (take k ls) \<le> e" "e < edgeCount (take (Suc k) ls)"
    and "edgeCount (take k' ls) \<le> e" "e < edgeCount (take (Suc k') ls)"
  shows "k = k'"
proof (rule ccontr)
  assume "k \<noteq> k'"
  then consider "Suc k \<le> k'" | "Suc k' \<le> k" by linarith
  then show False
  proof cases
    case 1
    from edgeCount_take_mono [OF 1, of ls] assms show False by simp
  next
    case 2
    from edgeCount_take_mono [OF 2, of ls] assms show False by simp
  qed
qed

lemma Edge_range_eq: "Edge_range c e i = ChainPosition_range c e i"
  by (induction c e i rule: Edge_range.induct)
     (subst Edge_range.simps, subst ChainPosition_range.simps, simp)

lemma Edge_for_eq: "Edge_for ls e i = ChainPosition_for ls e i"
  by (induction ls e i rule: Edge_for.induct)
     (subst Edge_for.simps, subst ChainPosition_for.simps, simp split: sum.splits)

lemma Edge_via_ChainPosition:
  "Edge p e = (case ChainPosition p e of Inl x \<Rightarrow> Inl x | Inr (i, j) \<Rightarrow> ChainEdge p i j)"
  by (simp add: Edge_def ChainPosition_def ChainEdge_def Edge_range_eq Edge_for_eq
      split: sum.splits prod.splits)

lemma ChainPosition_range_scan:
  "i < length ls \<Longrightarrow> edgeCount (take i ls) \<le> e \<Longrightarrow> e < edgeCount ls \<Longrightarrow>
   \<exists>k. ChainPosition_range (spec_cumulativeEdges ls) e i = (int k, e - edgeCount (take k ls))
     \<and> k < length ls \<and> edgeCount (take k ls) \<le> e \<and> e < edgeCount (take (Suc k) ls)"
proof (induction "length ls - i" arbitrary: i)
  case 0
  then show ?case by simp
next
  case (Suc n)
  show ?case
  proof (cases "Suc i < length ls")
    case False
    with Suc.prems have last: "Suc i = length ls" by simp
    then have "ChainPosition_range (spec_cumulativeEdges ls) e i = (int i, e - edgeCount (take i ls))"
      using Suc.prems by (subst ChainPosition_range.simps) simp
    moreover from last Suc.prems have "e < edgeCount (take (Suc i) ls)" by simp
    ultimately show ?thesis using Suc.prems by blast
  next
    case True
    show ?thesis
    proof (cases "e < edgeCount (take (Suc i) ls)")
      case lt: True
      with True Suc.prems have
        "ChainPosition_range (spec_cumulativeEdges ls) e i = (int i, e - edgeCount (take i ls))"
        by (subst ChainPosition_range.simps) simp
      with lt Suc.prems show ?thesis by blast
    next
      case ge: False
      with True Suc.prems have
        "ChainPosition_range (spec_cumulativeEdges ls) e i =
         ChainPosition_range (spec_cumulativeEdges ls) e (Suc i)"
        by (subst ChainPosition_range.simps) simp
      moreover from Suc.hyps(2) have "n = length ls - Suc i" by simp
      from Suc.hyps(1) [OF this True] ge Suc.prems(3) have
        "\<exists>k. ChainPosition_range (spec_cumulativeEdges ls) e (Suc i) =
              (int k, e - edgeCount (take k ls))
          \<and> k < length ls \<and> edgeCount (take k ls) \<le> e \<and> e < edgeCount (take (Suc k) ls)"
        by simp
      ultimately show ?thesis by simp
    qed
  qed
qed

lemma ChainPosition_for_scan:
  "i \<le> length ls \<Longrightarrow> edgeCount (take i ls) \<le> e \<Longrightarrow> e < edgeCount ls \<Longrightarrow>
   \<exists>k. ChainPosition_for ls (e - edgeCount (take i ls)) (int i)
         = Inr (int k, e - edgeCount (take k ls))
     \<and> k < length ls \<and> edgeCount (take k ls) \<le> e \<and> e < edgeCount (take (Suc k) ls)"
proof (induction "length ls - i" arbitrary: i)
  case 0
  then show ?case by simp
next
  case (Suc n)
  then have i: "i < length ls" by simp
  then have ix: "index ls (int i) = Inr (ls ! i)"
    by (simp add: index_def)
  show ?case
  proof (cases "e < edgeCount (take (Suc i) ls)")
    case True
    with i ix have "ChainPosition_for ls (e - edgeCount (take i ls)) (int i)
        = Inr (int i, e - edgeCount (take i ls))"
      by (subst ChainPosition_for.simps) (simp add: edgeCount_take_Suc)
    with True i Suc.prems show ?thesis by blast
  next
    case False
    with i ix have "ChainPosition_for ls (e - edgeCount (take i ls)) (int i)
        = ChainPosition_for ls (e - edgeCount (take (Suc i) ls)) (int (Suc i))"
      by (subst ChainPosition_for.simps) (simp add: edgeCount_take_Suc algebra_simps)
    moreover from Suc.hyps(2) have "n = length ls - Suc i" by simp
    from Suc.hyps(1) [OF this] i False Suc.prems(3) have
      "\<exists>k. ChainPosition_for ls (e - edgeCount (take (Suc i) ls)) (int (Suc i))
            = Inr (int k, e - edgeCount (take k ls))
        \<and> k < length ls \<and> edgeCount (take k ls) \<le> e \<and> e < edgeCount (take (Suc k) ls)"
      by simp
    ultimately show ?thesis by simp
  qed
qed

lemma upt_split_at: "m \<le> n \<Longrightarrow> [0..<n] = [0..<m] @ [m..<n]"
proof -
  assume "m \<le> n"
  then obtain d where "n = m + d"
    using le_iff_add by blast
  then show ?thesis
    by (simp only: upt_add_eq_append [OF le0])
qed

lemma spec_indexed_chain:
  assumes "k < length ls" "edgeCount (take k ls) \<le> e" "e < edgeCount (take (Suc k) ls)"
  shows "spec_indexed (spec_cumulativeEdges ls) e = Some (int k, e - edgeCount (take k ls))"
proof -
  let ?P = "\<lambda>i. spec_cumulativeEdges ls ! i \<le> e"
  have low: "?P i" if "i < Suc k" for i
  proof -
    from that have "i \<le> k" by simp
    from edgeCount_take_mono [OF this, of ls] assms that show ?thesis by simp
  qed
  have high: "\<not> ?P i" if "Suc k \<le> i" "i < length ls" for i
    using edgeCount_take_mono [OF that(1), of ls] assms that by simp
  from assms(1) have "[0..<length ls] = [0..<Suc k] @ [Suc k..<length ls]"
    by (intro upt_split_at) simp
  then have "filter ?P [0..<length ls] = filter ?P [0..<Suc k] @ filter ?P [Suc k..<length ls]"
    by (metis filter_append)
  also have "filter ?P [0..<Suc k] = [0..<Suc k]"
    using low by (intro filter_True) auto
  also have "filter ?P [Suc k..<length ls] = []"
    using high by (intro filter_False) auto
  finally have "filter ?P (rev [0..<length ls]) = k # rev [0..<k]"
    by (simp add: rev_filter [symmetric])
  with assms(1) show ?thesis
    by (simp add: spec_indexed_def)
qed

lemma numEdges_PolygonFromLoops_range:
  "numEdges (PolygonFromLoops_range ls p) = numEdges p + edgeCount ls"
  by (induction ls arbitrary: p)
     (simp_all add: edgeCount_def Vertices_def Let_def split: option.splits)

lemma cumulativeEdges_PolygonFromLoops_range:
  "cumulativeEdges (PolygonFromLoops_range ls p) =
     (case cumulativeEdges p of
        None \<Rightarrow> None
      | Some c \<Rightarrow> Some (c @ map (\<lambda>i. numEdges p + edgeCount (take i ls)) [0..<length ls]))"
proof (induction ls arbitrary: p)
  case Nil
  then show ?case by (simp split: option.splits)
next
  case (Cons l ls)
  show ?case
  proof (cases "cumulativeEdges p")
    case None
    then show ?thesis by (simp add: Cons.IH)
  next
    case (Some c)
    let ?n = "numEdges p" and ?v = "int (length (vertices l))"
    have "map (\<lambda>i. ?n + edgeCount (take i (l # ls))) [0..<Suc (length ls)] =
        ?n # map (\<lambda>i. ?n + ?v + edgeCount (take i ls)) [0..<length ls]"
      unfolding map_upt_Suc by (simp add: edgeCount_def add.assoc)
    then have shift: "map (\<lambda>i. ?n + edgeCount (take i (l # ls))) [0..<length (l # ls)] =
        ?n # map (\<lambda>i. ?n + ?v + edgeCount (take i ls)) [0..<length ls]"
      by (simp only: length_Cons)
    from Some have "cumulativeEdges (PolygonFromLoops_range (l # ls) p) =
        Some ((c @ [?n]) @ map (\<lambda>i. ?n + ?v + edgeCount (take i ls)) [0..<length ls])"
      by (simp add: Cons.IH Vertices_def)
    also have "\<dots> = Some (c @ map (\<lambda>i. ?n + edgeCount (take i (l # ls))) [0..<length (l # ls)])"
      by (simp only: shift append_assoc append_Cons append_Nil)
    finally show ?thesis
      using Some by (simp only: option.case)
  qed
qed

lemma tableBuilt_fields:
  "loops (tableBuilt p) = loops p"
  "numEdges (tableBuilt p) = edgeCount (loops p)"
  "cumulativeEdges (tableBuilt p) = Some (spec_cumulativeEdges (loops p))"
  by (simp_all add: tableBuilt_def numEdges_PolygonFromLoops_range
      cumulativeEdges_PolygonFromLoops_range spec_cumulativeEdges_def)

lemma tableNil_fields:
  "loops (tableNil p) = loops p"
  "numEdges (tableNil p) = edgeCount (loops p)"
  "cumulativeEdges (tableNil p) = None"
  by (simp_all add: tableNil_def numEdges_PolygonFromLoops_range
      cumulativeEdges_PolygonFromLoops_range)

lemma edgeCount_pos_nonempty: "e < edgeCount ls \<Longrightarrow> 0 \<le> e \<Longrightarrow> ls \<noteq> []"
  by (auto simp: edgeCount_def)

lemma ChainPosition_linear_resolves:
  assumes "elems (cumulativeEdges p) = []" "0 \<le> e" "e < edgeCount (loops p)"
  shows "\<exists>k. ChainPosition p e = ChainPosition_for (loops p) e 0
    \<and> ChainPosition p e = Inr (int k, e - edgeCount (take k (loops p)))
    \<and> k < length (loops p) \<and> edgeCount (take k (loops p)) \<le> e
    \<and> e < edgeCount (take (Suc k) (loops p))"
proof -
  from assms(1) have "ChainPosition p e = ChainPosition_for (loops p) e 0"
    by (simp add: ChainPosition_def)
  moreover from assms(2) have "edgeCount (take 0 (loops p)) \<le> e"
    by (simp add: edgeCount_def)
  from ChainPosition_for_scan [OF le0 this assms(3)] have
    "\<exists>k. ChainPosition_for (loops p) e 0 = Inr (int k, e - edgeCount (take k (loops p)))
      \<and> k < length (loops p) \<and> edgeCount (take k (loops p)) \<le> e
      \<and> e < edgeCount (take (Suc k) (loops p))"
    by (simp add: edgeCount_def)
  ultimately show ?thesis by simp
qed

lemma ChainPosition_indexed_resolves:
  assumes "elems (cumulativeEdges p) = spec_cumulativeEdges (loops p)"
    "0 \<le> e" "e < edgeCount (loops p)"
  shows "\<exists>k. ChainPosition p e = Inr (ChainPosition_range (spec_cumulativeEdges (loops p)) e 0)
    \<and> ChainPosition p e = Inr (int k, e - edgeCount (take k (loops p)))
    \<and> k < length (loops p) \<and> edgeCount (take k (loops p)) \<le> e
    \<and> e < edgeCount (take (Suc k) (loops p))"
proof -
  from assms(2,3) have ne: "0 < length (loops p)"
    using edgeCount_pos_nonempty by blast
  with assms(1) have
    "ChainPosition p e = Inr (ChainPosition_range (spec_cumulativeEdges (loops p)) e 0)"
    by (simp add: ChainPosition_def)
  moreover from assms(2) have "edgeCount (take 0 (loops p)) \<le> e"
    by (simp add: edgeCount_def)
  note ChainPosition_range_scan [OF ne this assms(3)]
  ultimately show ?thesis by auto
qed

lemma ChainPosition_resolves:
  assumes "elems (cumulativeEdges p) = [] \<or>
      elems (cumulativeEdges p) = spec_cumulativeEdges (loops p)"
    "0 \<le> e" "e < edgeCount (loops p)"
  shows "\<exists>k. ChainPosition p e = Inr (int k, e - edgeCount (take k (loops p)))
    \<and> k < length (loops p) \<and> edgeCount (take k (loops p)) \<le> e
    \<and> e < edgeCount (take (Suc k) (loops p))"
  using assms ChainPosition_linear_resolves [of p e] ChainPosition_indexed_resolves [of p e]
  by blast

lemma ChainEdge_in_range:
  assumes "k < length (loops p)" "0 \<le> j" "j < int (length (vertices (loops p ! k)))"
  shows "\<exists>a b. ChainEdge p (int k) j = Inr (a, b)"
proof -
  from assms(2,3) have "vertices (loops p ! k) \<noteq> []"
    by auto
  with assms(1) show ?thesis
    by (simp add: ChainEdge_def Loop_def index_def Vertex_def Let_def)
qed

text \<open>Every constructor establishes \<open>polygon_inv\<close>, and so does the range loop on its own.\<close>

lemma polygon_inv_zeroPolygon: "polygon_inv zeroPolygon"
  by (simp add: polygon_inv_def zeroPolygon_def edgeCount_def elems_def)

lemma edgeCount_nonneg: "0 \<le> edgeCount ls"
  by (induction ls) (simp_all add: edgeCount_def)

lemma polygon_inv_FullPolygon: "polygon_inv (FullPolygon fl)"
  by (simp add: polygon_inv_def FullPolygon_def elems_def edgeCount_nonneg)

lemma polygon_inv_tableBuilt: "polygon_inv (tableBuilt p)"
  by (simp add: polygon_inv_def tableBuilt_fields elems_def)

lemma polygon_inv_tableNil: "polygon_inv (tableNil p)"
  by (simp add: polygon_inv_def tableNil_fields elems_def)

lemma polygon_inv_PolygonFromLoops:
  assumes "PolygonFromLoops ls = Inr p"
  shows "polygon_inv p"
proof -
  from assms obtain p0 where p0: "p = PolygonFromLoops_range ls p0" "loops p0 = ls"
    "numEdges p0 = 0" "cumulativeEdges p0 = None \<or> cumulativeEdges p0 = Some []"
    by (auto simp: PolygonFromLoops_def Let_def simp del: PolygonFromLoops_range.simps
        split: if_splits sum.splits)
  then show ?thesis
    by (auto simp: polygon_inv_def numEdges_PolygonFromLoops_range
        cumulativeEdges_PolygonFromLoops_range spec_cumulativeEdges_def elems_def)
qed

text \<open>
  C3: in a polygon with the constructors' edge bookkeeping, for every edge index \<open>e\<close>
  with \<open>0 \<le> e < NumEdges\<close>, \<open>ChainPosition\<close> returns a pair \<open>(i, j)\<close>, and \<open>Edge\<close> at \<open>e\<close>
  and \<open>ChainEdge\<close> at \<open>(i, j)\<close> return the same pair of vertices. The equation between
  the three functions holds for every polygon and every \<open>e\<close>, panics included
  (\<open>Edge_via_ChainPosition\<close>).
\<close>

theorem Edge_ChainPosition_ChainEdge:
  assumes "polygon_inv p" "0 \<le> e" "e < NumEdges p"
  shows "\<exists>i j a b. ChainPosition p e = Inr (i, j) \<and> Edge p e = Inr (a, b)
    \<and> ChainEdge p i j = Inr (a, b)"
proof -
  from assms have e: "e < edgeCount (loops p)"
    and c: "elems (cumulativeEdges p) = [] \<or>
      elems (cumulativeEdges p) = spec_cumulativeEdges (loops p)"
    by (simp_all add: polygon_inv_def NumEdges_def)
  from ChainPosition_resolves [OF c assms(2) e] obtain k where
    k: "ChainPosition p e = Inr (int k, e - edgeCount (take k (loops p)))" "k < length (loops p)"
      "edgeCount (take k (loops p)) \<le> e" "e < edgeCount (take (Suc k) (loops p))"
    by blast
  let ?j = "e - edgeCount (take k (loops p))"
  from k have "0 \<le> ?j" "?j < int (length (vertices (loops p ! k)))"
    by (simp_all add: edgeCount_take_Suc)
  from ChainEdge_in_range [OF k(2) this] obtain a b where
    "ChainEdge p (int k) ?j = Inr (a, b)"
    by blast
  with k(1) show ?thesis
    by (simp add: Edge_via_ChainPosition)
qed

text \<open>
  C1: take the loops of any polygon, with the edge count and the table as the
  constructor's range loop computes them, once with the table allocated and once with
  it nil. The allocated table is the list of prefix sums of the loops' edge counts.
  For every edge index \<open>e\<close> with \<open>0 \<le> e < NumEdges\<close>, \<open>ChainPosition\<close> runs the range loop
  over the table in the first polygon and the linear scan over the loops in the second,
  and both return the same pair \<open>(i, j)\<close>: \<open>i\<close> is the greatest index whose table entry is
  at most \<open>e\<close>, \<open>j\<close> is \<open>e\<close> minus that entry, and \<open>j\<close> is an edge of loop \<open>i\<close>. \<open>Edge\<close> returns
  the same pair of vertices in both polygons.
\<close>

theorem resolution_modes_agree:
  assumes "0 \<le> e" "e < NumEdges (tableNil p)"
  shows "cumulativeEdges (tableNil p) = None
    \<and> cumulativeEdges (tableBuilt p) = Some (spec_cumulativeEdges (loops p))
    \<and> NumEdges (tableBuilt p) = NumEdges (tableNil p)
    \<and> ChainPosition (tableNil p) e = ChainPosition_for (loops p) e 0
    \<and> ChainPosition (tableBuilt p) e =
        Inr (ChainPosition_range (spec_cumulativeEdges (loops p)) e 0)
    \<and> (\<exists>i j. ChainPosition (tableBuilt p) e = Inr (i, j)
          \<and> ChainPosition (tableNil p) e = Inr (i, j)
          \<and> spec_indexed (spec_cumulativeEdges (loops p)) e = Some (i, j)
          \<and> 0 \<le> i \<and> i < NumLoops p
          \<and> 0 \<le> j \<and> j < int (length (vertices (loops p ! nat i))))
    \<and> (\<exists>a b. Edge (tableBuilt p) e = Inr (a, b) \<and> Edge (tableNil p) e = Inr (a, b))"
proof -
  let ?ls = "loops p"
  from assms(2) have e: "e < edgeCount ?ls"
    by (simp add: NumEdges_def tableNil_fields)
  have "elems (cumulativeEdges (tableNil p)) = []"
    by (simp add: tableNil_fields elems_def)
  from ChainPosition_linear_resolves [OF this assms(1)] e obtain k where
    k: "ChainPosition (tableNil p) e = ChainPosition_for ?ls e 0"
      "ChainPosition (tableNil p) e = Inr (int k, e - edgeCount (take k ?ls))"
      "k < length ?ls" "edgeCount (take k ?ls) \<le> e" "e < edgeCount (take (Suc k) ?ls)"
    by (auto simp: tableNil_fields)
  have "elems (cumulativeEdges (tableBuilt p)) = spec_cumulativeEdges (loops (tableBuilt p))"
    by (simp add: tableBuilt_fields elems_def)
  from ChainPosition_indexed_resolves [OF this assms(1)] e obtain k' where
    k': "ChainPosition (tableBuilt p) e = Inr (ChainPosition_range (spec_cumulativeEdges ?ls) e 0)"
      "ChainPosition (tableBuilt p) e = Inr (int k', e - edgeCount (take k' ?ls))"
      "k' < length ?ls" "edgeCount (take k' ?ls) \<le> e" "e < edgeCount (take (Suc k') ?ls)"
    by (auto simp: tableBuilt_fields)
  from chain_unique [OF k(4,5) k'(4,5)] have same: "k' = k" by simp
  let ?j = "e - edgeCount (take k ?ls)"
  from k have j: "0 \<le> ?j" "?j < int (length (vertices (?ls ! k)))"
    by (simp_all add: edgeCount_take_Suc)
  from k(3) have "k < length (loops (tableNil p))"
    by (simp add: tableNil_fields)
  from ChainEdge_in_range [OF this, of ?j] j obtain a b where
    ab: "ChainEdge (tableNil p) (int k) ?j = Inr (a, b)"
    by (auto simp: tableNil_fields)
  have "Loop (tableBuilt p) i = Loop (tableNil p) i" for i
    by (simp add: Loop_def tableBuilt_fields tableNil_fields)
  then have "ChainEdge (tableBuilt p) i j' = ChainEdge (tableNil p) i j'" for i j'
    by (simp only: ChainEdge_def)
  with ab k(2) k'(2) same have
    edges: "Edge (tableBuilt p) e = Inr (a, b)" "Edge (tableNil p) e = Inr (a, b)"
    by (simp_all add: Edge_via_ChainPosition)
  from spec_indexed_chain [OF k(3,4,5)] have
    spec: "spec_indexed (spec_cumulativeEdges ?ls) e = Some (int k, ?j)" .
  have pos: "\<exists>i j. ChainPosition (tableBuilt p) e = Inr (i, j)
      \<and> ChainPosition (tableNil p) e = Inr (i, j)
      \<and> spec_indexed (spec_cumulativeEdges ?ls) e = Some (i, j)
      \<and> 0 \<le> i \<and> i < NumLoops p
      \<and> 0 \<le> j \<and> j < int (length (vertices (?ls ! nat i)))"
    using k(2,3) k'(2) same spec j
    by (intro exI [of _ "int k"] exI [of _ ?j]) (simp add: NumLoops_def)
  show ?thesis
    using k(1) k'(1) pos edges
    by (simp add: tableNil_fields tableBuilt_fields NumEdges_def)
qed

lemma nested_tables:
  "tableNil nested = nested" "tableBuilt nested = nestedIndexed"
  by (simp_all add: tableNil_def tableBuilt_def nested_def nestedIndexed_def Vertices_def
      tri_def hole_def shell2_def)

theorem resolution_modes_agree_witness:
  "NumEdges (tableNil nested) = 10
   \<and> tableNil nested = nested \<and> tableBuilt nested = nestedIndexed
   \<and> ChainPosition nested 5 = Inr (1, 2) \<and> ChainPosition nestedIndexed 5 = Inr (1, 2)
   \<and> Edge nested 5 = Inr (5, 6) \<and> Edge nestedIndexed 5 = Inr (5, 6)"
proof -
  have ne: "NumEdges nested = 10"
    by (simp add: NumEdges_def nested_def)
  then have n: "(0 :: int) \<le> 5" "5 < NumEdges (tableNil nested)"
    by (simp_all add: nested_tables)
  have lin: "ChainPosition_for (loops nested) 5 0 = Inr (1, 2)"
    by (simp add: ChainPosition_for.simps index_def nested_def tri_def hole_def)
  have idx: "index (loops nested) 1 = Inr hole"
    by (simp add: index_def nested_def)
  have ce: "ChainEdge nested 1 2 = Inr (5, 6)"
    by (simp add: ChainEdge_def Loop_def idx Vertex_def hole_def)
  have "elems (cumulativeEdges nested) = []"
    by (simp add: nested_def elems_def)
  then have cp: "ChainPosition nested 5 = Inr (1, 2)"
    by (simp add: ChainPosition_def lin)
  then have "Edge nested 5 = Inr (5, 6)"
    by (simp add: Edge_via_ChainPosition ce)
  with resolution_modes_agree [OF n] cp ne show ?thesis
    by (auto simp: nested_tables)
qed

theorem Edge_ChainPosition_ChainEdge_witness:
  "polygon_inv nestedIndexed \<and> NumEdges nestedIndexed = 10
   \<and> ChainPosition nestedIndexed 9 = Inr (2, 2)
   \<and> Edge nestedIndexed 9 = Inr (10, 8)
   \<and> ChainEdge nestedIndexed 2 2 = Inr (10, 8)"
proof -
  have inv: "polygon_inv nestedIndexed"
    using polygon_inv_tableBuilt [of nested] by (simp add: nested_tables)
  have ne: "NumEdges nestedIndexed = 10"
    by (simp add: NumEdges_def nestedIndexed_def nested_def)
  then have n: "(0 :: int) \<le> 9" "9 < NumEdges nestedIndexed"
    by simp_all
  have pos: "ChainPosition nestedIndexed 9 = Inr (2, 2)"
    by (simp add: ChainPosition_def nestedIndexed_def elems_def ChainPosition_range.simps)
  have idx: "index (loops nestedIndexed) 2 = Inr shell2"
    by (simp add: index_def nestedIndexed_def nested_def)
  have "ChainEdge nestedIndexed 2 2 = Inr (10, 8)"
    by (simp add: ChainEdge_def Loop_def idx Vertex_def shell2_def)
  with Edge_ChainPosition_ChainEdge [OF inv n] pos inv ne show ?thesis
    by auto
qed

subsection \<open>Origin containment\<close>

lemma ContainsOrigin_fold:
  "foldl (\<lambda>c l. c \<noteq> Loop_ContainsOrigin l) b ls =
     (b \<noteq> odd (length (filter Loop_ContainsOrigin ls)))"
  by (induction ls arbitrary: b) auto

text \<open>
  C8: \<open>ContainsOrigin\<close> is the parity of the loops' own origin-containment flags: it
  is true exactly when an odd number of the loops contain the origin, and it is false
  for a polygon without loops, the zero value in particular.
\<close>

theorem ContainsOrigin_parity:
  "ContainsOrigin p = odd (length (filter Loop_ContainsOrigin (loops p)))
   \<and> ContainsOrigin (p\<lparr>loops := []\<rparr>) = False
   \<and> ContainsOrigin (zeroPolygon :: 'pt polygon) = False"
  unfolding ContainsOrigin_def ContainsOrigin_fold zeroPolygon_def by simp

subsection \<open>Encoding\<close>

lemma foldl_Loop_encode:
  "enc_err e = None \<Longrightarrow>
   foldl (\<lambda>e l. Loop_encode l e) e ls = e\<lparr>enc_w := enc_w e @ map ItemLoop ls\<rparr>"
  by (induction ls arbitrary: e) (simp_all add: Loop_encode_def write_item_def)

text \<open>
  C6: for a polygon whose vertex count is 0, \<open>Encode\<close> returns an error value and
  leaves the writer as it was.
\<close>

theorem Encode_no_vertices:
  "numVertices p = 0 \<Longrightarrow> fst (Encode p w) \<noteq> None \<and> snd (Encode p w) = w"
  by (simp add: Encode_def encode_def)

theorem Encode_no_vertices_witness:
  "numVertices (zeroPolygon :: nat polygon) = 0
   \<and> fst (Encode (zeroPolygon :: nat polygon) []) \<noteq> None
   \<and> snd (Encode (zeroPolygon :: nat polygon) []) = []"
proof -
  have z: "numVertices (zeroPolygon :: nat polygon) = 0"
    by (simp add: zeroPolygon_def)
  from Encode_no_vertices [OF z, of "[]"] z show ?thesis
    by simp
qed

text \<open>
  C7: for a polygon with a positive vertex count, \<open>Encode\<close> returns no error and
  appends to the writer, in this order and with nothing between them: the version
  constant as one 8-bit field, the flag true, the \<open>hasHoles\<close> flag, the loop count as an
  unsigned 32-bit field, one block per loop in the order of the loop sequence, and the
  block of the bounding rectangle.
\<close>

theorem Encode_lossless_stream:
  "numVertices p > 0 \<Longrightarrow>
   Encode p w =
     (None,
      w @ [ItemInt8 encodingVersion, ItemBool True, ItemBool (hasHoles p),
           ItemUint32 (of_nat (length (loops p)))]
        @ map ItemLoop (loops p) @ [ItemRect (bound p)])"
  by (simp add: Encode_def encode_def encodeLossless_def writeInt8_def writeBool_def
      writeUint32_def Rect_encode_def write_item_def foldl_Loop_encode Let_def)

theorem Encode_lossless_stream_witness:
  "numVertices triPolygon > 0
   \<and> Encode triPolygon [] =
       (None, [ItemInt8 encodingVersion, ItemBool True, ItemBool False, ItemUint32 1,
               ItemLoop tri, ItemRect {0, 1, 2}])"
proof -
  have n: "numVertices triPolygon > 0"
    by (simp add: triPolygon_def)
  from Encode_lossless_stream [OF n, of "[]"] n show ?thesis
    by (simp add: triPolygon_def)
qed

end
